theory Spec2Isabelle
  imports Main "HOL-Library.Word" "HOL-Library.Monad_Syntax"
begin

unbundle bit_operations_syntax

section \<open>Go values\<close>

text \<open>
  Bytes and the unsigned fixed-width integers are words: \<open>+\<close>, \<open>-\<close> and \<open>*\<close> wrap around
  as Go's do.  Go's \<open>int\<close> is 32 bits wide on a 32-bit target and 64 bits wide on a 64-bit
  one.  Its width \<open>w\<close> is a parameter of everything that computes with it, \<open>int_bits w\<close>
  says that \<open>w\<close> is one of the two, and a value of type \<open>int\<close> is an \<open>int\<close> with the
  two's-complement wrap-around at \<open>w\<close> bits written out.  A panic of the Go runtime (slice
  bounds out of range, index out of range) is the value \<open>None\<close>.
\<close>

type_synonym byte = "8 word"
type_synonym uint32 = "32 word"
type_synonym uint64 = "64 word"

definition int_bits :: "nat \<Rightarrow> bool" where
  "int_bits w = (w = 32 \<or> w = 64)"

definition MaxInt :: "nat \<Rightarrow> int" where
  "MaxInt w = 2 ^ (w - 1) - 1"

definition MinInt :: "nat \<Rightarrow> int" where
  "MinInt w = - (2 ^ (w - 1))"

definition int_wrap :: "nat \<Rightarrow> int \<Rightarrow> int" where
  "int_wrap w x = signed_take_bit (w - 1) x"

definition int_add :: "nat \<Rightarrow> int \<Rightarrow> int \<Rightarrow> int" where
  "int_add w a b = int_wrap w (a + b)"

definition int_sub :: "nat \<Rightarrow> int \<Rightarrow> int \<Rightarrow> int" where
  "int_sub w a b = int_wrap w (a - b)"

text \<open>
  The conversion \<open>uint64(x)\<close> of an \<open>int\<close>: the value modulo \<open>2^64\<close>, which extends the
  sign of a 32-bit \<open>int\<close> and keeps the bits of a 64-bit one.
\<close>

definition uint64_of_int :: "int \<Rightarrow> uint64" where
  "uint64_of_int x = word_of_int x"

text \<open>
  A byte slice is the list of its elements.  \<open>len\<close> is Go's \<open>len\<close>; \<open>subslice xs lo hi\<close> is
  \<open>xs[lo:hi]\<close> and \<open>slice_from xs lo\<close> is \<open>xs[lo:]\<close>, which panic unless
  \<open>0 \<le> lo \<le> hi \<le> len(xs)\<close>; \<open>index xs i\<close> is \<open>xs[i]\<close>.  \<open>copy_bytes dst src\<close> is the
  content of \<open>dst\<close> after \<open>copy(dst, src)\<close>, which copies \<open>min(len(dst), len(src))\<close> elements.
\<close>

definition len :: "'a list \<Rightarrow> int" where
  "len xs = int (length xs)"

definition subslice :: "'a list \<Rightarrow> int \<Rightarrow> int \<Rightarrow> 'a list option" where
  "subslice xs lo hi =
     (if 0 \<le> lo \<and> lo \<le> hi \<and> hi \<le> len xs
      then Some (take (nat (hi - lo)) (drop (nat lo) xs))
      else None)"

definition slice_from :: "'a list \<Rightarrow> int \<Rightarrow> 'a list option" where
  "slice_from xs lo = subslice xs lo (len xs)"

definition index :: "'a list \<Rightarrow> int \<Rightarrow> 'a option" where
  "index xs i = (if 0 \<le> i \<and> i < len xs then Some (xs ! nat i) else None)"

definition copy_bytes :: "'a list \<Rightarrow> 'a list \<Rightarrow> 'a list" where
  "copy_bytes dst src = take (length dst) src @ drop (length src) dst"

text \<open>
  \<open>binary.LittleEndian.Uint64\<close> and \<open>Uint32\<close> of the Go standard library: they panic on a
  slice shorter than the word and read its first 8 (4) bytes, least significant first.
\<close>

definition le64 :: "byte list \<Rightarrow> uint64" where
  "le64 b =
     ucast (b ! 0) OR push_bit 8 (ucast (b ! 1)) OR push_bit 16 (ucast (b ! 2))
     OR push_bit 24 (ucast (b ! 3)) OR push_bit 32 (ucast (b ! 4))
     OR push_bit 40 (ucast (b ! 5)) OR push_bit 48 (ucast (b ! 6))
     OR push_bit 56 (ucast (b ! 7))"

definition le32 :: "byte list \<Rightarrow> uint32" where
  "le32 b =
     ucast (b ! 0) OR push_bit 8 (ucast (b ! 1)) OR push_bit 16 (ucast (b ! 2))
     OR push_bit 24 (ucast (b ! 3))"

definition u64 :: "byte list \<Rightarrow> uint64 option" where
  "u64 b = (if length b < 8 then None else Some (le64 b))"

definition u32 :: "byte list \<Rightarrow> uint32 option" where
  "u32 b = (if length b < 4 then None else Some (le32 b))"

section \<open>Constants and mixing functions\<close>

definition prime1 :: uint64 where "prime1 = 11400714785074694791"
definition prime2 :: uint64 where "prime2 = 14029467366897019727"
definition prime3 :: uint64 where "prime3 = 1609587929392839161"
definition prime4 :: uint64 where "prime4 = 9650029242287828579"
definition prime5 :: uint64 where "prime5 = 2870177450012600261"

definition prime1v :: uint64 where "prime1v = prime1"
definition prime2v :: uint64 where "prime2v = prime2"
definition prime3v :: uint64 where "prime3v = prime3"
definition prime4v :: uint64 where "prime4v = prime4"
definition prime5v :: uint64 where "prime5v = prime5"

text \<open>
  Modelled from the spec: the rotation helpers \<open>rol1\<close>, \<open>rol7\<close>, \<open>rol11\<close>, \<open>rol12\<close>,
  \<open>rol18\<close>, \<open>rol23\<close>, \<open>rol27\<close> and \<open>rol31\<close> are called by the source but declared in a file
  that is not part of it.  The spec writes each of them as \<open>rotl(x, k)\<close>, the left rotation
  of a 64-bit value by \<open>k\<close> bits.
\<close>

definition rol1 :: "uint64 \<Rightarrow> uint64" where "rol1 x = word_rotl 1 x"
definition rol7 :: "uint64 \<Rightarrow> uint64" where "rol7 x = word_rotl 7 x"
definition rol11 :: "uint64 \<Rightarrow> uint64" where "rol11 x = word_rotl 11 x"
definition rol12 :: "uint64 \<Rightarrow> uint64" where "rol12 x = word_rotl 12 x"
definition rol18 :: "uint64 \<Rightarrow> uint64" where "rol18 x = word_rotl 18 x"
definition rol23 :: "uint64 \<Rightarrow> uint64" where "rol23 x = word_rotl 23 x"
definition rol27 :: "uint64 \<Rightarrow> uint64" where "rol27 x = word_rotl 27 x"
definition rol31 :: "uint64 \<Rightarrow> uint64" where "rol31 x = word_rotl 31 x"

text \<open>The source's \<open>round\<close> (the name is taken in HOL) and \<open>mergeRound\<close>.\<close>

definition round_u64 :: "uint64 \<Rightarrow> uint64 \<Rightarrow> uint64" where
  "round_u64 acc input =
     (let acc = acc + input * prime2;
          acc = rol31 acc;
          acc = acc * prime1
      in acc)"

definition mergeRound :: "uint64 \<Rightarrow> uint64 \<Rightarrow> uint64" where
  "mergeRound acc val =
     (let val = round_u64 0 val;
          acc = acc XOR val;
          acc = acc * prime1 + prime4
      in acc)"

section \<open>The digest\<close>

record Digest =
  v1 :: uint64
  v2 :: uint64
  v3 :: uint64
  v4 :: uint64
  total :: int
  mem :: "byte list"
  n :: int

text \<open>The value of \<open>var d Digest\<close>: every field zero, \<open>mem\<close> an array of 32 zero bytes.\<close>

definition zero_Digest :: Digest where
  "zero_Digest =
     \<lparr>v1 = 0, v2 = 0, v3 = 0, v4 = 0, total = 0, mem = replicate 32 0, n = 0\<rparr>"

definition Digest_Reset :: "Digest \<Rightarrow> Digest" where
  "Digest_Reset d =
     d\<lparr>n := 0, total := 0, v1 := prime1v + prime2, v2 := prime2, v3 := 0, v4 := - prime1v\<rparr>"

definition New :: Digest where
  "New = Digest_Reset zero_Digest"

definition Digest_Size :: "Digest \<Rightarrow> int" where
  "Digest_Size d = 8"

definition Digest_BlockSize :: "Digest \<Rightarrow> int" where
  "Digest_BlockSize d = 32"

text \<open>
  Modelled from the spec: \<open>writeBlocks\<close> is called by \<open>Write\<close> but declared in a file that is
  not part of the source.  The spec (section 4.2): for each consecutive 32-byte block, read
  four 8-byte little-endian words \<open>w0..w3\<close> and apply \<open>v1 = round(v1, w0)\<close>,
  \<open>v2 = round(v2, w1)\<close>, \<open>v3 = round(v3, w2)\<close>, \<open>v4 = round(v4, w3)\<close>; return the number of
  bytes consumed, a multiple of 32 covering as many full blocks as were present, zero if the
  input is shorter than 32 bytes.  \<open>mix_blocks\<close> is the loop over the blocks.
\<close>

function mix_blocks :: "Digest \<Rightarrow> byte list \<Rightarrow> Digest" where
  "mix_blocks d b =
     (if 32 \<le> length b
      then mix_blocks
             (d\<lparr>v1 := round_u64 (v1 d) (le64 (take 8 b)),
                v2 := round_u64 (v2 d) (le64 (take 8 (drop 8 b))),
                v3 := round_u64 (v3 d) (le64 (take 8 (drop 16 b))),
                v4 := round_u64 (v4 d) (le64 (take 8 (drop 24 b)))\<rparr>)
             (drop 32 b)
      else d)"
  by pat_completeness auto
termination
  by (relation "measure (\<lambda>(d, b). length b)") auto

definition writeBlocks :: "Digest \<Rightarrow> byte list \<Rightarrow> Digest \<times> int" where
  "writeBlocks d b = (mix_blocks d b, 32 * (len b div 32))"

text \<open>
  \<open>Write\<close> returns the digest it leaves behind, the count \<open>n\<close> and the error \<open>err\<close>; the
  error interface value is \<open>nil\<close> or some error.  Its first argument \<open>w\<close> is the width of
  \<open>int\<close>, in which \<open>d.total += len(b)\<close>, \<open>d.n+len(b)\<close>, \<open>d.n += len(b)\<close> and \<open>32-d.n\<close>
  are computed.
\<close>

datatype error = nil | error_value string

definition Digest_Write :: "nat \<Rightarrow> Digest \<Rightarrow> byte list \<Rightarrow> (Digest \<times> int \<times> error) option" where
  "Digest_Write w d b =
     (let ret = len b;
          d = d\<lparr>total := int_add w (total d) (len b)\<rparr>
      in if int_add w (n d) (len b) < 32 then
           do {
             dst \<leftarrow> slice_from (mem d) (n d);
             let d = d\<lparr>mem := take (nat (n d)) (mem d) @ copy_bytes dst b\<rparr>;
             let d = d\<lparr>n := int_add w (n d) (len b)\<rparr>;
             Some (d, ret, nil)
           }
         else
           do {
             (d, b) \<leftarrow>
               (if n d > 0 then
                  do {
                    dst \<leftarrow> slice_from (mem d) (n d);
                    let d = d\<lparr>mem := take (nat (n d)) (mem d) @ copy_bytes dst b\<rparr>;
                    s1 \<leftarrow> subslice (mem d) 0 8;
                    w1 \<leftarrow> u64 s1;
                    let d = d\<lparr>v1 := round_u64 (v1 d) w1\<rparr>;
                    s2 \<leftarrow> subslice (mem d) 8 16;
                    w2 \<leftarrow> u64 s2;
                    let d = d\<lparr>v2 := round_u64 (v2 d) w2\<rparr>;
                    s3 \<leftarrow> subslice (mem d) 16 24;
                    w3 \<leftarrow> u64 s3;
                    let d = d\<lparr>v3 := round_u64 (v3 d) w3\<rparr>;
                    s4 \<leftarrow> subslice (mem d) 24 32;
                    w4 \<leftarrow> u64 s4;
                    let d = d\<lparr>v4 := round_u64 (v4 d) w4\<rparr>;
                    b \<leftarrow> slice_from b (int_sub w 32 (n d));
                    let d = d\<lparr>n := 0\<rparr>;
                    Some (d, b)
                  }
                else Some (d, b));
             (d, b) \<leftarrow>
               (if len b \<ge> 32 then
                  do {
                    let (d, nw) = writeBlocks d b;
                    b \<leftarrow> slice_from b nw;
                    Some (d, b)
                  }
                else Some (d, b));
             let d = d\<lparr>mem := copy_bytes (mem d) b\<rparr>;
             let d = d\<lparr>n := len b\<rparr>;
             Some (d, ret, nil)
           })"

text \<open>
  \<open>Sum64\<close> of a digest.  \<open>Sum64_start\<close> is the value of \<open>h\<close> when the loops over the carry
  buffer begin (lines 136 to 149 of the source), \<open>Sum64_lanes\<close> its value before the total
  is added (lines 136 to 147).  In the loops \<open>i\<close> counts up from 0 and
  every step first slices the 32-byte array at \<open>i\<close>, so \<open>i + 8\<close>, \<open>i + 4\<close> and \<open>i + 1\<close> stay
  below 41 and are written without the wrap-around.
\<close>

definition Sum64_lanes :: "Digest \<Rightarrow> uint64" where
  "Sum64_lanes d =
     (if total d \<ge> 32 then
        (let a1 = v1 d; a2 = v2 d; a3 = v3 d; a4 = v4 d;
             h = rol1 a1 + rol7 a2 + rol12 a3 + rol18 a4;
             h = mergeRound h a1;
             h = mergeRound h a2;
             h = mergeRound h a3;
             h = mergeRound h a4
         in h)
      else v3 d + prime5)"

definition Sum64_start :: "Digest \<Rightarrow> uint64" where
  "Sum64_start d = Sum64_lanes d + uint64_of_int (total d)"

function Sum64_loop8 :: "Digest \<Rightarrow> int \<Rightarrow> int \<Rightarrow> uint64 \<Rightarrow> (int \<times> uint64) option" where
  "Sum64_loop8 d i end' h =
     (if i + 8 \<le> end' then
        do {
          s \<leftarrow> subslice (mem d) i (i + 8);
          w \<leftarrow> u64 s;
          let k1 = round_u64 0 w;
          let h = h XOR k1;
          let h = rol27 h * prime1 + prime4;
          Sum64_loop8 d (i + 8) end' h
        }
      else Some (i, h))"
  by pat_completeness auto
termination
  by (relation "measure (\<lambda>(d, i, end', h). nat (end' - i))") auto

function Sum64_loop1 :: "Digest \<Rightarrow> int \<Rightarrow> int \<Rightarrow> uint64 \<Rightarrow> uint64 option" where
  "Sum64_loop1 d i end' h =
     (if i < end' then
        do {
          x \<leftarrow> index (mem d) i;
          let h = h XOR ucast x * prime5;
          let h = rol11 h * prime1;
          Sum64_loop1 d (i + 1) end' h
        }
      else Some h)"
  by pat_completeness auto
termination
  by (relation "measure (\<lambda>(d, i, end', h). nat (end' - i))") auto

definition Digest_Sum64 :: "Digest \<Rightarrow> (Digest \<times> uint64) option" where
  "Digest_Sum64 d =
     (let h = Sum64_start d;
          end' = n d
      in do {
           (i, h) \<leftarrow> Sum64_loop8 d 0 end' h;
           (i, h) \<leftarrow>
             (if i + 4 \<le> end' then
                do {
                  s \<leftarrow> subslice (mem d) i (i + 4);
                  w \<leftarrow> u32 s;
                  let h = h XOR ucast w * prime1;
                  let h = rol23 h * prime2 + prime3;
                  Some (i + 4, h)
                }
              else Some (i, h));
           h \<leftarrow> Sum64_loop1 d i end' h;
           let h = h XOR drop_bit 33 h;
           let h = h * prime2;
           let h = h XOR drop_bit 29 h;
           let h = h * prime3;
           let h = h XOR drop_bit 32 h;
           Some (d, h)
         })"

section \<open>The one-shot hash\<close>

text \<open>
  The finalization in the words of the spec (section 4.4), over the list of the pending
  bytes: (a) while at least 8 bytes remain, XOR \<open>h\<close> with \<open>round(0, word64)\<close> and set
  \<open>h = rotl(h,27)*PRIME1 + PRIME4\<close>; (b) if exactly 4 to 7 bytes remain, XOR \<open>h\<close> with
  \<open>word32 * PRIME1\<close> and set \<open>h = rotl(h,23)*PRIME2 + PRIME3\<close>; (c) for each remaining single
  byte, XOR \<open>h\<close> with \<open>byte * PRIME5\<close> and set \<open>h = rotl(h,11)*PRIME1\<close>; then the avalanche
  \<open>h ^= h>>33; h *= PRIME2; h ^= h>>29; h *= PRIME3; h ^= h>>32\<close>.  Each tier returns the
  new \<open>h\<close> and the bytes it left.
\<close>

function spec_tier_a :: "uint64 \<Rightarrow> byte list \<Rightarrow> uint64 \<times> byte list" where
  "spec_tier_a h xs =
     (if 8 \<le> length xs
      then spec_tier_a
             (word_rotl 27 (h XOR round_u64 0 (le64 (take 8 xs))) * prime1 + prime4)
             (drop 8 xs)
      else (h, xs))"
  by pat_completeness auto
termination
  by (relation "measure (\<lambda>(h, xs). length xs)") auto

definition spec_tier_b :: "uint64 \<Rightarrow> byte list \<Rightarrow> uint64 \<times> byte list" where
  "spec_tier_b h xs =
     (if 4 \<le> length xs \<and> length xs \<le> 7
      then (word_rotl 23 (h XOR ucast (le32 (take 4 xs)) * prime1) * prime2 + prime3, drop 4 xs)
      else (h, xs))"

fun spec_tier_c :: "uint64 \<Rightarrow> byte list \<Rightarrow> uint64" where
  "spec_tier_c h [] = h"
| "spec_tier_c h (x # xs) = spec_tier_c (word_rotl 11 (h XOR ucast x * prime5) * prime1) xs"

definition spec_fold_tail :: "uint64 \<Rightarrow> byte list \<Rightarrow> uint64" where
  "spec_fold_tail h xs =
     (let (h, xs) = spec_tier_a h xs;
          (h, xs) = spec_tier_b h xs
      in spec_tier_c h xs)"

definition spec_avalanche :: "uint64 \<Rightarrow> uint64" where
  "spec_avalanche h =
     (let h = h XOR drop_bit 33 h;
          h = h * prime2;
          h = h XOR drop_bit 29 h;
          h = h * prime3;
          h = h XOR drop_bit 32 h
      in h)"

text \<open>
  The start of the finalization in the words of the spec: if \<open>total \<ge> 32\<close>,
  \<open>h = rotl(v1,1) + rotl(v2,7) + rotl(v3,12) + rotl(v4,18)\<close> and each lane is folded in by
  \<open>merge_round\<close> in the order v1, v2, v3, v4; else \<open>h = v3 + PRIME5\<close>; then \<open>total\<close> is
  added as an unsigned 64-bit value.
\<close>

definition spec_start :: "uint64 \<Rightarrow> uint64 \<Rightarrow> uint64 \<Rightarrow> uint64 \<Rightarrow> int \<Rightarrow> uint64" where
  "spec_start a1 a2 a3 a4 tot =
     (if tot \<ge> 32
      then mergeRound (mergeRound (mergeRound (mergeRound
             (word_rotl 1 a1 + word_rotl 7 a2 + word_rotl 12 a3 + word_rotl 18 a4) a1) a2) a3) a4
      else a3 + prime5)
     + word_of_int tot"

text \<open>
  Modelled from the spec: \<open>sum64\<close>, which the exported \<open>Sum64\<close> calls, is declared in a file
  that is not part of the source.  The spec (section 4.5): seed the lanes as \<open>Reset\<close> does,
  run block processing over the input to consume all full 32-byte blocks, then apply the
  finalization, with the untouched tail (under 32 bytes) as the carry contents and the full
  input length as \<open>total\<close>.
\<close>

definition sum64 :: "byte list \<Rightarrow> uint64" where
  "sum64 b =
     (let (d, nw) = writeBlocks New b;
          tail = drop (nat nw) b
      in spec_avalanche (spec_fold_tail (spec_start (v1 d) (v2 d) (v3 d) (v4 d) (len b)) tail))"

definition Sum64 :: "byte list \<Rightarrow> uint64" where
  "Sum64 b = sum64 b"

section \<open>Sequences of calls\<close>

text \<open>
  Writing the chunks of a partition in order.  Here and below the first argument \<open>w\<close> is
  the width of \<open>int\<close>.
\<close>

fun write_all :: "nat \<Rightarrow> Digest \<Rightarrow> byte list list \<Rightarrow> Digest option" where
  "write_all w d [] = Some d"
| "write_all w d (c # cs) = do { (d', r, e) \<leftarrow> Digest_Write w d c; write_all w d' cs }"

text \<open>
  The calls a client can make on a digest, and the digest they leave.  \<open>written k cs\<close> is
  the number of bytes passed to \<open>Write\<close> since the last \<open>Reset\<close>, starting from \<open>k\<close>;
  \<open>fits w k cs\<close> says that this number never leaves the range of \<open>int\<close> on the way.
\<close>

datatype call = CallReset | CallWrite "byte list" | CallSum64

fun call_digest :: "nat \<Rightarrow> Digest \<Rightarrow> call \<Rightarrow> Digest option" where
  "call_digest w d CallReset = Some (Digest_Reset d)"
| "call_digest w d (CallWrite b) = do { (d', r, e) \<leftarrow> Digest_Write w d b; Some d' }"
| "call_digest w d CallSum64 = do { (d', h) \<leftarrow> Digest_Sum64 d; Some d' }"

fun run :: "nat \<Rightarrow> Digest \<Rightarrow> call list \<Rightarrow> Digest option" where
  "run w d [] = Some d"
| "run w d (c # cs) = do { d' \<leftarrow> call_digest w d c; run w d' cs }"

fun count_call :: "nat \<Rightarrow> call \<Rightarrow> nat" where
  "count_call k CallReset = 0"
| "count_call k (CallWrite b) = k + length b"
| "count_call k CallSum64 = k"

fun written :: "nat \<Rightarrow> call list \<Rightarrow> nat" where
  "written k [] = k"
| "written k (c # cs) = written (count_call k c) cs"

fun fits :: "nat \<Rightarrow> nat \<Rightarrow> call list \<Rightarrow> bool" where
  "fits w k [] = (int k \<le> MaxInt w)"
| "fits w k (c # cs) = (int k \<le> MaxInt w \<and> fits w (count_call k c) cs)"

section \<open>Invariant and abstraction\<close>

text \<open>
  The digest at rest: \<open>mem\<close> is an array of 32 bytes and \<open>0 \<le> n < 32\<close>.  Its pending bytes
  are the first \<open>n\<close> bytes of \<open>mem\<close>.  \<open>mix_lanes\<close> is block processing on the four lanes alone.
\<close>

definition digest_ok :: "Digest \<Rightarrow> bool" where
  "digest_ok d = (length (mem d) = 32 \<and> 0 \<le> n d \<and> n d < 32)"

definition pending :: "Digest \<Rightarrow> byte list" where
  "pending d = take (nat (n d)) (mem d)"

type_synonym lanes = "uint64 \<times> uint64 \<times> uint64 \<times> uint64"

definition lanes_of :: "Digest \<Rightarrow> lanes" where
  "lanes_of d = (v1 d, v2 d, v3 d, v4 d)"

definition mix_block :: "lanes \<Rightarrow> byte list \<Rightarrow> lanes" where
  "mix_block l b =
     (case l of (a1, a2, a3, a4) \<Rightarrow>
        (round_u64 a1 (le64 (take 8 b)),
         round_u64 a2 (le64 (take 8 (drop 8 b))),
         round_u64 a3 (le64 (take 8 (drop 16 b))),
         round_u64 a4 (le64 (take 8 (drop 24 b)))))"

function mix_lanes :: "lanes \<Rightarrow> byte list \<Rightarrow> lanes" where
  "mix_lanes l b = (if 32 \<le> length b then mix_lanes (mix_block l b) (drop 32 b) else l)"
  by pat_completeness auto
termination
  by (relation "measure (\<lambda>(l, b). length b)") auto

definition rest :: "byte list \<Rightarrow> byte list" where
  "rest b = drop (32 * (length b div 32)) b"

text \<open>
  \<open>counted d k\<close>: the digest is at rest and has counted \<open>k\<close> bytes, of which the pending
  ones are a part.
\<close>

definition counted :: "Digest \<Rightarrow> nat \<Rightarrow> bool" where
  "counted d k = (digest_ok d \<and> total d = int k \<and> n d \<le> int k)"

text \<open>The recursive equations are unfolded by hand.\<close>

declare mix_blocks.simps [simp del] mix_lanes.simps [simp del] spec_tier_a.simps [simp del]
  Sum64_loop8.simps [simp del] Sum64_loop1.simps [simp del]

section \<open>The mixing functions and the seeding\<close>

lemma word_of_nat_mod64: "(word_of_nat (k mod 2 ^ 64) :: uint64) = word_of_nat k"
  by (simp add: word_of_nat_eq_iff take_bit_eq_mod)

lemma round_u64_unat:
  "unat (round_u64 acc input)
     = unat (word_rotl 31 (word_of_nat ((unat acc + unat input * unat prime2) mod 2 ^ 64) :: uint64))
         * unat prime1 mod 2 ^ 64"
proof -
  have "(word_of_nat ((unat acc + unat input * unat prime2) mod 2 ^ 64) :: uint64)
          = acc + input * prime2"
    unfolding word_of_nat_mod64 by simp
  then show ?thesis
    by (simp add: round_u64_def rol31_def unat_word_ariths)
qed

lemma mergeRound_unat:
  "unat (mergeRound acc val)
     = (unat (acc XOR round_u64 0 val) * unat prime1 + unat prime4) mod 2 ^ 64"
proof -
  have "unat (mergeRound acc val)
      = (unat (acc XOR round_u64 0 val) * unat prime1 mod 2 ^ 64 + unat prime4) mod 2 ^ 64"
    by (simp add: mergeRound_def unat_word_ariths)
  also have "\<dots> = (unat (acc XOR round_u64 0 val) * unat prime1 + unat prime4) mod 2 ^ 64"
    by (rule mod_add_left_eq)
  finally show ?thesis .
qed

text \<open>
  C7: for all 64-bit values, \<open>round(acc, input)\<close> is the left rotation by 31 of
  \<open>(acc + input * PRIME2) mod 2^64\<close>, times \<open>PRIME1\<close> modulo \<open>2^64\<close>, and
  \<open>mergeRound(acc, val)\<close> is \<open>((acc XOR round(0, val)) * PRIME1 + PRIME4) mod 2^64\<close>.
  Each equation is given on the words and again on the numbers the words stand for.
\<close>

theorem round_mergeRound_spec:
  "round_u64 acc input = word_rotl 31 (acc + input * prime2) * prime1
   \<and> unat (round_u64 acc input)
       = unat (word_rotl 31 (word_of_nat ((unat acc + unat input * unat prime2) mod 2 ^ 64) :: uint64))
           * unat prime1 mod 2 ^ 64
   \<and> mergeRound acc val = (acc XOR round_u64 0 val) * prime1 + prime4
   \<and> unat (mergeRound acc val)
       = (unat (acc XOR round_u64 0 val) * unat prime1 + unat prime4) mod 2 ^ 64"
proof -
  have "round_u64 acc input = word_rotl 31 (acc + input * prime2) * prime1"
    by (simp add: round_u64_def rol31_def)
  moreover have "mergeRound acc val = (acc XOR round_u64 0 val) * prime1 + prime4"
    by (simp add: mergeRound_def)
  ultimately show ?thesis
    using round_u64_unat [of acc input] mergeRound_unat [of acc val] by blast
qed

text \<open>
  C6: after \<open>Reset\<close>, and so after \<open>New\<close>, the lanes are \<open>v1 = (PRIME1 + PRIME2) mod 2^64\<close>,
  \<open>v2 = PRIME2\<close>, \<open>v3 = 0\<close> and \<open>v4 = 2^64 - PRIME1\<close>, the unsigned wrap-around of
  \<open>-PRIME1\<close>, with \<open>n = 0\<close> and \<open>total = 0\<close>.
\<close>

theorem Reset_seeds_lanes:
  "v1 (Digest_Reset d) = prime1 + prime2
   \<and> unat (v1 (Digest_Reset d)) = (unat prime1 + unat prime2) mod 2 ^ 64
   \<and> v2 (Digest_Reset d) = prime2
   \<and> v3 (Digest_Reset d) = 0
   \<and> v4 (Digest_Reset d) = - prime1
   \<and> unat (v4 (Digest_Reset d)) = 2 ^ 64 - unat prime1
   \<and> n (Digest_Reset d) = 0
   \<and> total (Digest_Reset d) = 0
   \<and> New = \<lparr>v1 = prime1 + prime2, v2 = prime2, v3 = 0, v4 = - prime1,
             total = 0, mem = replicate 32 0, n = 0\<rparr>
   \<and> unat (v1 New) = 6983438078262162902
   \<and> unat (v4 New) = 7046029288634856825"
  by (simp add: Digest_Reset_def New_def zero_Digest_def prime1v_def prime1_def prime2_def
      unat_word_ariths)

section \<open>The digest of no bytes\<close>

text \<open>
  C2: hashing the empty byte sequence gives \<open>0xEF46DB3751D8E999\<close>: the one-shot \<open>Sum64\<close> of
  the empty slice returns that value, and so does \<open>Sum64\<close> on a freshly constructed digest,
  on a digest that was just \<open>Reset\<close> (whatever it held before), and on a fresh digest after
  a write of no bytes.
\<close>

theorem Sum64_of_no_bytes:
  "Sum64 [] = 0xEF46DB3751D8E999
   \<and> Digest_Sum64 New = Some (New, 0xEF46DB3751D8E999)
   \<and> Digest_Sum64 (Digest_Reset d) = Some (Digest_Reset d, 0xEF46DB3751D8E999)
   \<and> Digest_Write w New [] = Some (New, 0, nil)
   \<and> do { (d1, r, e) \<leftarrow> Digest_Write w New []; (d2, h) \<leftarrow> Digest_Sum64 d1; Some h }
       = Some 0xEF46DB3751D8E999"
proof -
  have o: "Sum64 [] = 0xEF46DB3751D8E999"
    by code_simp
  have r: "Digest_Sum64 (Digest_Reset x) = Some (Digest_Reset x, 0xEF46DB3751D8E999)" for x
    by (simp add: Digest_Sum64_def Sum64_start_def Sum64_lanes_def Digest_Reset_def prime1v_def
        prime1_def prime2_def prime3_def prime5_def uint64_of_int_def Sum64_loop8.simps
        Sum64_loop1.simps)
  have w: "Digest_Write w New [] = Some (New, 0, nil)"
    by (simp add: Digest_Write_def New_def Digest_Reset_def zero_Digest_def len_def int_add_def
        int_wrap_def slice_from_def subslice_def copy_bytes_def)
  have s: "Digest_Sum64 New = Some (New, 0xEF46DB3751D8E999)"
    unfolding New_def by (rule r)
  show ?thesis
    by (simp add: o r w s)
qed

section \<open>Block processing\<close>

lemma int_wrap_id: "MinInt w \<le> x \<Longrightarrow> x \<le> MaxInt w \<Longrightarrow> int_wrap w x = x"
  by (simp add: int_wrap_def MinInt_def MaxInt_def signed_take_bit_int_eq_self)

lemma int_bits_range: "int_bits w \<Longrightarrow> MinInt w \<le> - 64 \<and> 64 \<le> MaxInt w"
  by (auto simp: int_bits_def MinInt_def MaxInt_def)

lemma mix_block_append: "32 \<le> length xs \<Longrightarrow> mix_block l (xs @ ys) = mix_block l xs"
  by (simp add: mix_block_def split: prod.splits)

lemma length_rest: "length (rest b) = length b mod 32"
  by (simp add: rest_def minus_mult_div_eq_mod)

lemma rest_short: "length b < 32 \<Longrightarrow> rest b = b"
  by (simp add: rest_def)

lemma div32_step: "32 * (m div 32) + 32 = 32 * ((32 + m) div 32)" for m :: nat
  by (simp add: div_add_self1)

lemma rest_drop32: "32 \<le> length b \<Longrightarrow> rest (drop 32 b) = rest b"
proof -
  assume a: "32 \<le> length b"
  then obtain m where m: "length b = 32 + m"
    using le_Suc_ex by blast
  show ?thesis
    by (simp add: rest_def m div32_step)
qed

lemma mix_lanes_short: "length b < 32 \<Longrightarrow> mix_lanes l b = l"
  by (subst mix_lanes.simps) simp

lemma mix_lanes_step:
  "32 \<le> length b \<Longrightarrow> mix_lanes l b = mix_lanes (mix_block l b) (drop 32 b)"
  by (subst mix_lanes.simps) simp

lemma mix_lanes_append: "mix_lanes l (xs @ ys) = mix_lanes (mix_lanes l xs) (rest xs @ ys)"
proof (induction l xs rule: mix_lanes.induct)
  case (1 l b)
  show ?case
  proof (cases "32 \<le> length b")
    case True
    then have "mix_lanes l (b @ ys) = mix_lanes (mix_block l b) (drop 32 b @ ys)"
      by (simp add: mix_lanes_step mix_block_append)
    also have "\<dots> = mix_lanes (mix_lanes (mix_block l b) (drop 32 b)) (rest (drop 32 b) @ ys)"
      using "1.IH" [OF True] .
    finally show ?thesis
      using True by (simp add: rest_drop32 mix_lanes_step [of b])
  next
    case False
    then show ?thesis
      by (simp add: rest_short mix_lanes_short)
  qed
qed

lemma rest_append: "rest (xs @ ys) = rest (rest xs @ ys)"
proof (induction "length xs" arbitrary: xs rule: less_induct)
  case less
  show ?case
  proof (cases "32 \<le> length xs")
    case True
    have "rest (xs @ ys) = rest (drop 32 (xs @ ys))"
      using True by (simp add: rest_drop32 del: drop_append)
    also have "\<dots> = rest (drop 32 xs @ ys)"
      using True by simp
    also have "\<dots> = rest (rest (drop 32 xs) @ ys)"
      using True by (intro less) simp
    finally show ?thesis
      using True by (simp add: rest_drop32)
  next
    case False
    then show ?thesis
      by (simp add: rest_short)
  qed
qed

lemma mix_blocks_lanes:
  "mix_blocks d b =
     (case mix_lanes (lanes_of d) b of
        (a1, a2, a3, a4) \<Rightarrow> d\<lparr>v1 := a1, v2 := a2, v3 := a3, v4 := a4\<rparr>)"
proof (induction d b rule: mix_blocks.induct)
  case (1 d b)
  show ?case
  proof (cases "32 \<le> length b")
    case True
    let ?d = "d\<lparr>v1 := round_u64 (v1 d) (le64 (take 8 b)),
                v2 := round_u64 (v2 d) (le64 (take 8 (drop 8 b))),
                v3 := round_u64 (v3 d) (le64 (take 8 (drop 16 b))),
                v4 := round_u64 (v4 d) (le64 (take 8 (drop 24 b)))\<rparr>"
    have l: "lanes_of ?d = mix_block (lanes_of d) b"
      by (simp add: lanes_of_def mix_block_def)
    have "mix_blocks d b = mix_blocks ?d (drop 32 b)"
      using True by (subst mix_blocks.simps) simp
    also have "\<dots> = (case mix_lanes (lanes_of ?d) (drop 32 b) of
        (a1, a2, a3, a4) \<Rightarrow> ?d\<lparr>v1 := a1, v2 := a2, v3 := a3, v4 := a4\<rparr>)"
      by (rule "1.IH" [OF True])
    also have "mix_lanes (lanes_of ?d) (drop 32 b) = mix_lanes (lanes_of d) b"
      unfolding l using True by (simp add: mix_lanes_step [of b])
    finally show ?thesis
      by (simp split: prod.splits)
  next
    case False
    then show ?thesis
      by (subst mix_blocks.simps) (simp add: lanes_of_def mix_lanes_short)
  qed
qed

section \<open>What Write does to the lanes, the carry buffer and the total\<close>

lemma int_add_id: "MinInt w \<le> a + b \<Longrightarrow> a + b \<le> MaxInt w \<Longrightarrow> int_add w a b = a + b"
  by (simp add: int_add_def int_wrap_id)

lemma int_sub_id: "MinInt w \<le> a - b \<Longrightarrow> a - b \<le> MaxInt w \<Longrightarrow> int_sub w a b = a - b"
  by (simp add: int_sub_def int_wrap_id)

lemma len_nonneg [simp]: "0 \<le> len xs"
  by (simp add: len_def)

lemma length_copy_bytes [simp]: "length (copy_bytes dst src) = length dst"
  by (simp add: copy_bytes_def)

lemma copy_bytes_short:
  "length src \<le> length dst \<Longrightarrow> copy_bytes dst src = src @ drop (length src) dst"
  by (simp add: copy_bytes_def)

lemma copy_bytes_long:
  "length dst \<le> length src \<Longrightarrow> copy_bytes dst src = take (length dst) src"
  by (simp add: copy_bytes_def)

lemma slice_from_Some:
  "0 \<le> lo \<Longrightarrow> lo \<le> len xs \<Longrightarrow> slice_from xs lo = Some (drop (nat lo) xs)"
  by (simp add: slice_from_def subslice_def len_def)

lemma subslice_Some:
  "0 \<le> lo \<Longrightarrow> lo \<le> hi \<Longrightarrow> hi \<le> len xs \<Longrightarrow>
     subslice xs lo hi = Some (take (nat (hi - lo)) (drop (nat lo) xs))"
  by (simp add: subslice_def)

text \<open>The first branch of Write.\<close>

lemma Write_small:
  assumes ok: "digest_ok d" and small: "int_add w (n d) (len b) < 32"
  shows "Digest_Write w d b =
           Some (d\<lparr>total := int_add w (total d) (len b),
                   mem := take (nat (n d)) (mem d) @ copy_bytes (drop (nat (n d)) (mem d)) b,
                   n := int_add w (n d) (len b)\<rparr>, len b, nil)"
  using ok small
  by (simp add: Digest_Write_def Let_def digest_ok_def slice_from_Some len_def)

lemma u64_Some: "8 \<le> length s \<Longrightarrow> u64 s = Some (le64 s)"
  by (simp add: u64_def)

lemma slice_from_nw: "slice_from b (32 * (len b div 32)) = Some (rest b)"
proof -
  have "32 * (int (length b) div 32) \<le> int (length b)"
    by simp
  moreover have "nat (32 * (int (length b) div 32)) = 32 * (length b div 32)"
    by (simp add: nat_mult_distrib nat_div_distrib)
  ultimately show ?thesis
    by (simp add: slice_from_Some len_def rest_def)
qed

lemma Write_big_partial:
  assumes ib: "int_bits w" and ok: "digest_ok d" and big: "32 \<le> n d + len b"
    and pos: "0 < n d" and nov: "\<not> int_add w (n d) (len b) < 32"
  shows "\<exists>d'. Digest_Write w d b = Some (d', len b, nil)
           \<and> total d' = int_add w (total d) (len b)
           \<and> lanes_of d' = mix_lanes (lanes_of d) (pending d @ b)
           \<and> mem d' = copy_bytes (take 32 (pending d @ b)) (rest (pending d @ b))
           \<and> n d' = len (rest (pending d @ b))"
proof -
  let ?P = "pending d @ b"
  let ?k = "nat (n d)"
  have lm: "length (mem d) = 32" and n0: "0 \<le> n d" and n32: "n d < 32"
    using ok by (simp_all add: digest_ok_def)
  have lp: "length (pending d) = ?k"
    using lm n0 n32 by (simp add: pending_def)
  have lb: "32 - ?k \<le> length b"
    using big n0 by (simp add: len_def)
  have lP: "32 \<le> length ?P"
    using lp lb by simp
  have mem1: "take ?k (mem d) @ copy_bytes (drop ?k (mem d)) b = take 32 ?P"
    using lm lb lp n32 by (simp add: copy_bytes_long pending_def)
  have b1: "drop (32 - ?k) b = drop 32 ?P"
    using lp n32 by simp
  have sub: "int_sub w 32 (n d) = 32 - n d"
    using n0 n32 int_bits_range [OF ib] by (intro int_sub_id) auto
  have sl: "slice_from b (32 - n d) = Some (drop 32 ?P)"
    using lb n0 n32 b1 by (simp add: slice_from_Some len_def nat_diff_distrib)
  have ml: "mix_lanes (v1 d, v2 d, v3 d, v4 d) ?P =
      mix_lanes (round_u64 (v1 d) (le64 (take 8 ?P)),
                 round_u64 (v2 d) (le64 (take 8 (drop 8 ?P))),
                 round_u64 (v3 d) (le64 (take 8 (drop 16 ?P))),
                 round_u64 (v4 d) (le64 (take 8 (drop 24 ?P)))) (drop 32 ?P)"
    using mix_lanes_step [OF lP] by (simp add: mix_block_def)
  have r: "rest (drop 32 ?P) = rest ?P"
    using rest_drop32 [OF lP] .
  show ?thesis
  proof (cases "32 \<le> len (drop 32 ?P)")
    case True
    show ?thesis
      unfolding Digest_Write_def
      using nov pos lm n0 n32 lP True
      by (simp add: Let_def slice_from_Some [of "n d" "mem d"] mem1 sub sl subslice_Some u64_Some
          writeBlocks_def mix_blocks_lanes slice_from_nw len_def [of "mem d"]
          len_def [of "take 32 ?P"] lanes_of_def drop_take ml r
          split: prod.splits del: take_append drop_append)
  next
    case False
    then have sh: "length (drop 32 ?P) < 32"
      by (simp add: len_def)
    have r': "drop 32 ?P = rest ?P"
      using rest_short [OF sh] r by simp
    show ?thesis
      unfolding Digest_Write_def
      using nov pos lm n0 n32 lP False
      by (simp add: Let_def slice_from_Some [of "n d" "mem d"] mem1 sub sl subslice_Some u64_Some
          len_def [of "mem d"] len_def [of "take 32 ?P"] lanes_of_def drop_take ml
          mix_lanes_short [OF sh] r' [symmetric]
          del: take_append drop_append)
  qed
qed

lemma not_small_big:
  assumes "int_bits w" and "0 \<le> a" and "0 \<le> b" and "\<not> int_add w a b < 32"
  shows "32 \<le> a + b"
proof (rule ccontr)
  assume "\<not> 32 \<le> a + b"
  then have "int_add w a b = a + b"
    using assms(2,3) int_bits_range [OF assms(1)] by (intro int_add_id) auto
  then show False
    using assms \<open>\<not> 32 \<le> a + b\<close> by simp
qed

lemma Write_big_empty:
  assumes ib: "int_bits w" and ok: "digest_ok d" and zero: "n d = 0"
    and nov: "\<not> int_add w (n d) (len b) < 32"
  shows "\<exists>d'. Digest_Write w d b = Some (d', len b, nil)
           \<and> total d' = int_add w (total d) (len b)
           \<and> lanes_of d' = mix_lanes (lanes_of d) (pending d @ b)
           \<and> mem d' = copy_bytes (mem d) (rest (pending d @ b))
           \<and> n d' = len (rest (pending d @ b))"
proof -
  have lm: "length (mem d) = 32"
    using ok by (simp add: digest_ok_def)
  have p: "pending d = []"
    using zero by (simp add: pending_def)
  have lb: "32 \<le> len b"
    using not_small_big [OF ib, of "n d" "len b"] nov zero by simp
  show ?thesis
    unfolding Digest_Write_def
    using nov zero lm lb
    by (simp add: Let_def writeBlocks_def mix_blocks_lanes slice_from_nw lanes_of_def p
          split: prod.splits)
qed

lemma digest_okE:
  assumes "digest_ok d"
  obtains k where "n d = int k" and "k < 32" and "length (mem d) = 32"
    and "length (pending d) = k" and "nat (n d) = k"
proof -
  define k where "k = nat (n d)"
  have k: "n d = int k" "k < 32"
    using assms unfolding k_def digest_ok_def by linarith+
  moreover have "length (mem d) = 32"
    using assms by (simp add: digest_ok_def)
  moreover from this k have "length (pending d) = k"
    by (simp add: pending_def)
  ultimately show ?thesis
    using that by simp
qed

lemma Write_big:
  assumes ib: "int_bits w" and ok: "digest_ok d" and nov: "\<not> int_add w (n d) (len b) < 32"
  shows "\<exists>d'. Digest_Write w d b = Some (d', len b, nil)
           \<and> total d' = int_add w (total d) (len b)
           \<and> lanes_of d' = mix_lanes (lanes_of d) (pending d @ b)
           \<and> mem d' = copy_bytes (if 0 < n d then take 32 (pending d @ b) else mem d)
                          (rest (pending d @ b))
           \<and> n d' = len (rest (pending d @ b))"
proof (cases "0 < n d")
  case True
  have "32 \<le> n d + len b"
    using not_small_big [OF ib, of "n d" "len b"] nov ok by (simp add: digest_ok_def)
  then show ?thesis
    using Write_big_partial [OF ib ok _ True nov] True by simp
next
  case False
  then have "n d = 0"
    using ok by (simp add: digest_ok_def)
  then show ?thesis
    using Write_big_empty [OF ib ok _ nov] by simp
qed

lemma Write_returns:
  assumes ib: "int_bits w" and ok: "digest_ok d"
  shows "\<exists>d'. Digest_Write w d b = Some (d', len b, nil)
           \<and> total d' = int_add w (total d) (len b)
           \<and> length (mem d') = 32"
proof (cases "int_add w (n d) (len b) < 32")
  case True
  define k where "k = nat (n d)"
  have k: "n d = int k" "k < 32"
    using ok unfolding k_def digest_ok_def by linarith+
  have "length (mem d) = 32"
    using ok by (simp add: digest_ok_def)
  then show ?thesis
    using k(2) by (simp add: Write_small [OF ok True] k(1))
next
  case False
  from ok obtain k where k: "n d = int k" and lp: "length (pending d) = k"
    by (rule digest_okE)
  have "32 \<le> n d + len b"
    using not_small_big [OF ib, of "n d" "len b"] False k by simp
  then have "0 < n d \<Longrightarrow> 32 \<le> length (pending d @ b)"
    using lp k by (simp add: len_def)
  then show ?thesis
    using Write_big [OF ib ok False] ok by (auto simp: digest_ok_def)
qed

lemma Write_abs:
  assumes ib: "int_bits w" and ok: "digest_ok d" and fit: "n d + len b \<le> MaxInt w"
  shows "\<exists>d'. Digest_Write w d b = Some (d', len b, nil)
           \<and> digest_ok d'
           \<and> total d' = int_add w (total d) (len b)
           \<and> lanes_of d' = mix_lanes (lanes_of d) (pending d @ b)
           \<and> pending d' = rest (pending d @ b)"
proof -
  have lm: "length (mem d) = 32" and n0: "0 \<le> n d" and n32: "n d < 32"
    using ok by (simp_all add: digest_ok_def)
  have lp: "length (pending d) = nat (n d)"
    using lm n0 n32 by (simp add: pending_def)
  have "0 \<le> n d + len b"
    using n0 by (simp add: add_nonneg_nonneg)
  then have add: "int_add w (n d) (len b) = n d + len b"
    using fit int_bits_range [OF ib] by (intro int_add_id) auto
  define k where "k = nat (n d)"
  have k: "n d = int k" "k < 32"
    using n0 n32 by (simp_all add: k_def)
  show ?thesis
  proof (cases "int_add w (n d) (len b) < 32")
    case True
    let ?d' = "d\<lparr>total := int_add w (total d) (len b),
                  mem := take (nat (n d)) (mem d) @ copy_bytes (drop (nat (n d)) (mem d)) b,
                  n := int_add w (n d) (len b)\<rparr>"
    have sh: "length (pending d @ b) < 32"
      using True add lp k by (simp add: len_def)
    have lb: "length b < 32 - k"
      using True add k by (simp add: len_def)
    have w: "Digest_Write w d b = Some (?d', len b, nil)"
      by (rule Write_small [OF ok True])
    have add': "int_add w (int k) (int (length b)) = int k + int (length b)"
      using add k by (simp add: len_def)
    have nn: "nat (n d) = k" "nat (int_add w (n d) (len b)) = k + length b"
      using k by (simp_all add: add' len_def nat_add_distrib)
    have "pending ?d' = pending d @ b"
      using lm lb by (simp add: pending_def nn copy_bytes_short)
    then have p': "pending ?d' = rest (pending d @ b)"
      by (simp only: rest_short [OF sh])
    have l': "lanes_of ?d' = mix_lanes (lanes_of d) (pending d @ b)"
      by (simp add: mix_lanes_short [OF sh]) (simp add: lanes_of_def)
    have ok': "digest_ok ?d'"
      using True lm k lb by (simp add: digest_ok_def add' len_def)
    have t': "total ?d' = int_add w (total d) (len b)"
      by simp
    from w ok' t' l' p' show ?thesis
      by blast
  next
    case False
    let ?P = "pending d @ b"
    have sh: "length (rest ?P) < 32"
      by (simp add: length_rest)
    obtain d' where w: "Digest_Write w d b = Some (d', len b, nil)"
      and t: "total d' = int_add w (total d) (len b)"
      and l: "lanes_of d' = mix_lanes (lanes_of d) ?P"
      and m: "mem d' = copy_bytes (if 0 < n d then take 32 ?P else mem d) (rest ?P)"
      and nk: "n d' = len (rest ?P)"
      using Write_big [OF ib ok False] by blast
    have "32 \<le> n d + len b"
      using not_small_big [OF ib, of "n d" "len b"] False n0 by simp
    then have lP: "32 \<le> length ?P"
      using lp n0 by (simp add: len_def)
    have "length (pending d) = k"
      using lp k by simp
    with lP have lM: "length (if 0 < n d then take 32 ?P else mem d) = 32"
      using lm k(2) by simp
    have "length (mem d') = 32"
      using m lM by simp
    moreover have "pending d' = rest ?P"
      using sh lM by (simp add: pending_def m nk len_def copy_bytes_short)
    ultimately show ?thesis
      using w t l nk sh by (simp add: digest_ok_def len_def)
  qed
qed

lemma Write_nothing:
  assumes ib: "int_bits w" and ok: "digest_ok d"
  shows "Digest_Write w d [] = Some (d\<lparr>total := int_wrap w (total d)\<rparr>, 0, nil)"
proof -
  have a: "int_add w (n d) (len ([] :: byte list)) = n d"
    using ok int_bits_range [OF ib] int_add_id [of w "n d" 0]
    by (auto simp: len_def digest_ok_def)
  then have "int_add w (n d) (len ([] :: byte list)) < 32"
    using ok by (simp add: digest_ok_def)
  from Write_small [OF ok this] show ?thesis
    by (simp add: a copy_bytes_def) (simp add: len_def int_add_def)
qed

section \<open>The loops of Sum64 and the three tiers\<close>

lemma spec_tier_a_short: "length xs < 8 \<Longrightarrow> spec_tier_a h xs = (h, xs)"
  by (subst spec_tier_a.simps) simp

lemma spec_tier_a_step:
  "8 \<le> length xs \<Longrightarrow>
     spec_tier_a h xs =
       spec_tier_a (word_rotl 27 (h XOR round_u64 0 (le64 (take 8 xs))) * prime1 + prime4)
         (drop 8 xs)"
  by (subst spec_tier_a.simps) simp

lemma spec_tier_a_rest:
  "spec_tier_a h xs = (h', r) \<Longrightarrow>
     length r < 8 \<and> length r \<le> length xs \<and> r = drop (length xs - length r) xs"
proof (induction h xs arbitrary: h' r rule: spec_tier_a.induct)
  case (1 h xs)
  show ?case
  proof (cases "8 \<le> length xs")
    case True
    let ?h = "word_rotl 27 (h XOR round_u64 0 (le64 (take 8 xs))) * prime1 + prime4"
    have "spec_tier_a ?h (drop 8 xs) = (h', r)"
      using "1.prems" True by (simp add: spec_tier_a_step)
    from "1.IH" [OF True this]
    have a: "length r < 8" and b: "length r \<le> length xs - 8"
      and c: "r = drop (length xs - 8 - length r) (drop 8 xs)"
      by simp_all
    have "length xs - 8 - length r + 8 = length xs - length r"
      using True b by simp
    with c have "r = drop (length xs - length r) xs"
      by simp
    with a b show ?thesis
      by simp
  next
    case False
    then show ?thesis
      using "1.prems" by (simp add: spec_tier_a_short)
  qed
qed

lemma Sum64_loop8_refines:
  "a \<le> c \<Longrightarrow> c \<le> length (mem d) \<Longrightarrow>
     Sum64_loop8 d (int a) (int c) h =
       (case spec_tier_a h (take (c - a) (drop a (mem d))) of
          (h', r) \<Rightarrow> Some (int c - int (length r), h'))"
proof (induction "c - a" arbitrary: a h rule: less_induct)
  case less
  let ?xs = "take (c - a) (drop a (mem d))"
  have lx: "length ?xs = c - a"
    using less.prems by simp
  show ?case
  proof (cases "a + 8 \<le> c")
    case True
    let ?h = "word_rotl 27 (h XOR round_u64 0 (le64 (take 8 ?xs))) * prime1 + prime4"
    have d8: "drop 8 ?xs = take (c - (a + 8)) (drop (a + 8) (mem d))"
      by (simp add: drop_take add.commute)
    have "Sum64_loop8 d (int a) (int c) h = Sum64_loop8 d (int (a + 8)) (int c) ?h"
      using True less.prems
      by (subst Sum64_loop8.simps)
         (simp add: subslice_Some len_def u64_Some round_u64_def rol27_def Let_def)
    also have "\<dots> = (case spec_tier_a ?h (drop 8 ?xs) of
          (h', r) \<Rightarrow> Some (int c - int (length r), h'))"
      unfolding d8 using True less.prems by (intro less.hyps) simp_all
    also have "spec_tier_a ?h (drop 8 ?xs) = spec_tier_a h ?xs"
      using True lx by (simp add: spec_tier_a_step [of ?xs])
    finally show ?thesis .
  next
    case False
    then have "length ?xs < 8"
      using lx by simp
    then have "spec_tier_a h ?xs = (h, ?xs)"
      by (rule spec_tier_a_short)
    moreover have "Sum64_loop8 d (int a) (int c) h = Some (int a, h)"
      using False by (subst Sum64_loop8.simps) simp
    ultimately show ?thesis
      using lx less.prems by simp
  qed
qed

lemma Sum64_loop1_refines:
  "a \<le> c \<Longrightarrow> c \<le> length (mem d) \<Longrightarrow>
     Sum64_loop1 d (int a) (int c) h = Some (spec_tier_c h (take (c - a) (drop a (mem d))))"
proof (induction "c - a" arbitrary: a h rule: less_induct)
  case less
  show ?case
  proof (cases "a < c")
    case True
    let ?h = "word_rotl 11 (h XOR ucast (mem d ! a) * prime5) * prime1"
    have x: "take (c - a) (drop a (mem d)) = mem d ! a # take (c - Suc a) (drop (Suc a) (mem d))"
    proof -
      have "drop a (mem d) = mem d ! a # drop (Suc a) (mem d)"
        using True less.prems by (simp add: Cons_nth_drop_Suc)
      moreover have "c - a = Suc (c - Suc a)"
        using True by simp
      ultimately show ?thesis
        by simp
    qed
    have i: "index (mem d) (int a) = Some (mem d ! a)"
      using True less.prems by (simp add: index_def len_def)
    have "Sum64_loop1 d (int a) (int c) h = Sum64_loop1 d (int (Suc a)) (int c) ?h"
      using True by (subst Sum64_loop1.simps) (simp add: i rol11_def Let_def add.commute)
    also have "\<dots> = Some (spec_tier_c ?h (take (c - Suc a) (drop (Suc a) (mem d))))"
      using True less.prems by (intro less.hyps) simp_all
    finally show ?thesis
      by (simp add: x)
  next
    case False
    then show ?thesis
      using less.prems by (subst Sum64_loop1.simps) simp
  qed
qed

lemma Sum64_refines:
  assumes ok: "digest_ok d"
  shows "Digest_Sum64 d = Some (d, spec_avalanche (spec_fold_tail (Sum64_start d) (pending d)))"
proof -
  from ok obtain k where k: "n d = int k" and k32: "k < 32" and lm: "length (mem d) = 32"
    and lp: "length (pending d) = k" and nk: "nat (n d) = k"
    by (rule digest_okE)
  let ?h0 = "Sum64_start d"
  have p: "pending d = take k (mem d)"
    by (simp add: pending_def nk)
  obtain h1 r1 where a: "spec_tier_a ?h0 (pending d) = (h1, r1)"
    by (cases "spec_tier_a ?h0 (pending d)")
  from spec_tier_a_rest [OF a]
  have r8: "length r1 < 8" and rk: "length r1 \<le> k" and r1: "r1 = drop (k - length r1) (pending d)"
    by (simp_all add: lp)
  define i1 where "i1 = k - length r1"
  have i1: "int k - int (length r1) = int i1" "i1 \<le> k" "k - i1 = length r1"
    using rk by (simp_all add: i1_def)
  have r1': "r1 = take (k - i1) (drop i1 (mem d))"
    using r1 by (simp add: p i1_def drop_take)
  have l8: "Sum64_loop8 d 0 (int k) ?h0 = Some (int i1, h1)"
    using Sum64_loop8_refines [of 0 k d ?h0] k32 lm a i1 by (simp add: p)
  show ?thesis
  proof (cases "4 \<le> length r1")
    case True
    let ?h2 = "word_rotl 23 (h1 XOR ucast (le32 (take 4 r1)) * prime1) * prime2 + prime3"
    have t4: "take 4 (drop i1 (mem d)) = take 4 r1"
      using True i1 by (subst r1') simp
    have b: "spec_tier_b h1 r1 = (?h2, drop 4 r1)"
      using True r8 by (simp add: spec_tier_b_def)
    have d4: "drop 4 r1 = take (k - (i1 + 4)) (drop (i1 + 4) (mem d))"
      by (subst r1') (simp add: drop_take add.commute)
    have l1: "Sum64_loop1 d (int (i1 + 4)) (int k) ?h2 = Some (spec_tier_c ?h2 (drop 4 r1))"
      unfolding d4 using True i1 k32 lm by (intro Sum64_loop1_refines) simp_all
    have s4: "subslice (mem d) (int i1) (int i1 + 4) = Some (take 4 r1)"
      using True i1 k32 lm by (simp add: subslice_Some len_def t4)
    have u4: "u32 (take 4 r1) = Some (le32 (take 4 r1))"
      using True by (simp add: u32_def)
    have c: "int i1 + 4 \<le> int k"
      using True i1 by simp
    have l1': "Sum64_loop1 d (int i1 + 4) (int k) ?h2 = Some (spec_tier_c ?h2 (drop 4 r1))"
      using l1 by (simp add: add.commute)
    show ?thesis
      unfolding Digest_Sum64_def Let_def k l8
      using c
      by (simp add: s4 u4 l1' rol23_def spec_fold_tail_def a b spec_avalanche_def Let_def)
  next
    case False
    have b: "spec_tier_b h1 r1 = (h1, r1)"
      using False by (simp add: spec_tier_b_def)
    have l1: "Sum64_loop1 d (int i1) (int k) h1 = Some (spec_tier_c h1 r1)"
      unfolding r1' using i1 k32 lm by (intro Sum64_loop1_refines) simp_all
    have c: "\<not> int i1 + 4 \<le> int k"
      using False i1 by simp
    show ?thesis
      unfolding Digest_Sum64_def Let_def k l8
      using c
      by (simp add: l1 spec_fold_tail_def a b spec_avalanche_def Let_def)
  qed
qed

section \<open>A sequence of writes\<close>

lemma Sum64_start_spec: "Sum64_start d = spec_start (v1 d) (v2 d) (v3 d) (v4 d) (total d)"
  by (simp add: Sum64_start_def Sum64_lanes_def spec_start_def Let_def uint64_of_int_def
      rol1_def rol7_def rol12_def rol18_def)

lemma nat_nw: "nat (32 * (len b div 32)) = 32 * (length b div 32)"
  by (simp add: len_def nat_mult_distrib nat_div_distrib)

lemma sum64_lanes:
  "sum64 b =
     (case mix_lanes (lanes_of New) b of
        (a1, a2, a3, a4) \<Rightarrow>
          spec_avalanche (spec_fold_tail (spec_start a1 a2 a3 a4 (len b)) (rest b)))"
  by (simp add: sum64_def writeBlocks_def mix_blocks_lanes nat_nw rest_def split: prod.splits)

lemma len_append [simp]: "len (xs @ ys) = len xs + len ys"
  by (simp add: len_def)

lemma write_all_abs:
  assumes "digest_ok d" and "n d \<le> total d" and "total d + len (concat cs) \<le> MaxInt w"
    and ib: "int_bits w"
  shows "\<exists>d'. write_all w d cs = Some d'
           \<and> digest_ok d' \<and> n d' \<le> total d'
           \<and> total d' = total d + len (concat cs)
           \<and> lanes_of d' = mix_lanes (lanes_of d) (pending d @ concat cs)
           \<and> pending d' = rest (pending d @ concat cs)"
  using assms
proof (induction cs arbitrary: d)
  case Nil
  from Nil(1) obtain k where "k < 32" and "length (pending d) = k"
    by (rule digest_okE)
  then have sh: "length (pending d) < 32"
    by simp
  show ?case
    using Nil by (simp add: len_def rest_short [OF sh] mix_lanes_short [OF sh])
next
  case (Cons c cs)
  from Cons.prems(1) obtain k where k: "n d = int k" and lp: "length (pending d) = k"
    by (rule digest_okE)
  have lc: "len (concat (c # cs)) = len c + len (concat cs)"
    by (simp add: len_def)
  have t0: "0 \<le> total d"
    using Cons.prems(2) k by simp
  have fit: "n d + len c \<le> MaxInt w"
    using Cons.prems(2,3) lc len_nonneg [of "concat cs"] by linarith
  have tfit: "total d + len c \<le> MaxInt w"
    using Cons.prems(3) lc len_nonneg [of "concat cs"] by linarith
  obtain d1 where w: "Digest_Write w d c = Some (d1, len c, nil)"
    and ok1: "digest_ok d1"
    and t1: "total d1 = int_add w (total d) (len c)"
    and l1: "lanes_of d1 = mix_lanes (lanes_of d) (pending d @ c)"
    and p1: "pending d1 = rest (pending d @ c)"
    using Write_abs [OF ib Cons.prems(1) fit] by blast
  have "0 \<le> total d + len c"
    using t0 by (simp add: add_nonneg_nonneg)
  then have t1': "total d1 = total d + len c"
    unfolding t1 using tfit int_bits_range [OF ib] by (intro int_add_id) auto
  from ok1 obtain k1 where k1: "n d1 = int k1" and lp1: "length (pending d1) = k1"
    by (rule digest_okE)
  have "k1 \<le> k + length c"
    using lp1 lp by (simp add: p1 length_rest)
  then have nt1: "n d1 \<le> total d1"
    using k1 k Cons.prems(2) by (simp add: t1' len_def)
  have tf1: "total d1 + len (concat cs) \<le> MaxInt w"
    using Cons.prems(3) by (simp add: t1' lc)
  obtain d' where r: "write_all w d1 cs = Some d'"
    and ok': "digest_ok d'" and nt': "n d' \<le> total d'"
    and t': "total d' = total d1 + len (concat cs)"
    and l': "lanes_of d' = mix_lanes (lanes_of d1) (pending d1 @ concat cs)"
    and p': "pending d' = rest (pending d1 @ concat cs)"
    using Cons.IH [OF ok1 nt1 tf1 ib] by blast
  have "write_all w d (c # cs) = Some d'"
    by (simp add: w r)
  moreover have "total d' = total d + len (concat (c # cs))"
    by (simp add: t' t1' lc)
  moreover have "lanes_of d' = mix_lanes (lanes_of d) (pending d @ concat (c # cs))"
    using mix_lanes_append [of "lanes_of d" "pending d @ c" "concat cs"]
    by (simp add: l' l1 p1)
  moreover have "pending d' = rest (pending d @ concat (c # cs))"
    using rest_append [of "pending d @ c" "concat cs"]
    by (simp add: p' p1)
  ultimately show ?case
    using ok' nt' by blast
qed

lemma New_ok: "digest_ok New \<and> n New = 0 \<and> total New = 0 \<and> pending New = []"
  by (simp add: New_def Digest_Reset_def zero_Digest_def digest_ok_def pending_def)

lemma streaming_equals_one_shot:
  assumes "int_bits w" and "len (concat cs) \<le> MaxInt w"
  shows "\<exists>d. write_all w New cs = Some d
           \<and> Digest_Sum64 d = Some (d, Sum64 (concat cs))"
proof -
  obtain d where w: "write_all w New cs = Some d"
    and ok: "digest_ok d"
    and t: "total d = len (concat cs)"
    and l: "lanes_of d = mix_lanes (lanes_of New) (concat cs)"
    and p: "pending d = rest (concat cs)"
    using write_all_abs [of New cs w] assms New_ok by auto
  obtain a1 a2 a3 a4 where m: "mix_lanes (lanes_of New) (concat cs) = (a1, a2, a3, a4)"
    by (cases "mix_lanes (lanes_of New) (concat cs)")
  have "v1 d = a1" "v2 d = a2" "v3 d = a3" "v4 d = a4"
    using l m by (simp_all add: lanes_of_def)
  then have "Sum64_start d = spec_start a1 a2 a3 a4 (len (concat cs))"
    by (simp add: Sum64_start_spec t)
  then have "Digest_Sum64 d = Some (d, Sum64 (concat cs))"
    by (simp add: Sum64_refines [OF ok] Sum64_def sum64_lanes m p)
  with w show ?thesis
    by blast
qed

section \<open>Digests at rest\<close>

lemma Sum64_state: "Digest_Sum64 d = Some (d', h) \<Longrightarrow> d' = d"
  by (auto simp: Digest_Sum64_def Let_def split: bind_splits prod.splits if_splits)

lemma n_pending: "digest_ok d \<Longrightarrow> n d = len (pending d)"
  by (erule digest_okE) (simp add: len_def)

lemma Write_counted:
  assumes ib: "int_bits w" and c: "counted d k" and fit: "int (k + length b) \<le> MaxInt w"
  shows "\<exists>d'. Digest_Write w d b = Some (d', len b, nil) \<and> counted d' (k + length b)"
proof -
  have ok: "digest_ok d" and t: "total d = int k" and nk: "n d \<le> int k"
    using c by (simp_all add: counted_def)
  have "n d + len b \<le> MaxInt w"
    using nk fit by (simp add: len_def)
  from Write_abs [OF ib ok this] obtain d' where w: "Digest_Write w d b = Some (d', len b, nil)"
    and ok': "digest_ok d'"
    and t': "total d' = int_add w (total d) (len b)"
    and p': "pending d' = rest (pending d @ b)"
    by blast
  have "total d' = int k + len b"
    unfolding t' t using fit int_bits_range [OF ib]
    by (intro int_add_id) (auto simp: len_def)
  then have t'': "total d' = int (k + length b)"
    by (simp add: len_def)
  have "length (pending d') \<le> length (pending d) + length b"
    by (simp add: p' length_rest)
  then have "n d' \<le> n d + len b"
    using n_pending [OF ok] n_pending [OF ok'] by (simp add: len_def)
  then have "n d' \<le> int (k + length b)"
    using nk by (simp add: len_def)
  with w ok' t'' show ?thesis
    by (auto simp: counted_def)
qed

lemma Reset_counted: "length (mem d) = 32 \<Longrightarrow> counted (Digest_Reset d) 0"
  by (simp add: counted_def digest_ok_def Digest_Reset_def)

lemma fits_start: "fits w k cs \<Longrightarrow> int k \<le> MaxInt w"
  by (cases cs) simp_all

lemma New_counted: "counted New 0 \<and> length (mem New) = 32"
  using New_ok by (simp add: counted_def digest_ok_def)

text \<open>
  While the number of bytes written since the last \<open>Reset\<close> fits an \<open>int\<close>, every sequence
  of calls returns and leaves a digest at rest whose total is that number.
\<close>

lemma run_counted:
  "int_bits w \<Longrightarrow> counted d k \<Longrightarrow> fits w k cs \<Longrightarrow>
     \<exists>d'. run w d cs = Some d' \<and> counted d' (written k cs)"
proof (induction cs arbitrary: d k)
  case Nil
  then show ?case by simp
next
  case (Cons c cs)
  have f: "fits w (count_call k c) cs"
    using Cons.prems(3) by simp
  have ok: "digest_ok d"
    using Cons.prems(2) by (simp add: counted_def)
  have "\<exists>d1. call_digest w d c = Some d1 \<and> counted d1 (count_call k c)"
  proof (cases c)
    case CallReset
    then show ?thesis
      using ok by (simp add: Reset_counted digest_ok_def)
  next
    case (CallWrite b)
    have "int (k + length b) \<le> MaxInt w"
      using fits_start [OF f] CallWrite by simp
    from Write_counted [OF Cons.prems(1,2) this] show ?thesis
      using CallWrite by auto
  next
    case CallSum64
    then show ?thesis
      using Sum64_refines [OF ok] Cons.prems(2) by simp
  qed
  then obtain d1 where "call_digest w d c = Some d1" and "counted d1 (count_call k c)"
    by blast
  with Cons.IH [OF Cons.prems(1) this(2) f] show ?case
    by simp
qed

lemma run_New_counted:
  "int_bits w \<Longrightarrow> fits w 0 cs \<Longrightarrow>
     \<exists>d. run w New cs = Some d \<and> 0 \<le> n d \<and> n d < 32 \<and> total d = int (written 0 cs)"
  using run_counted [of w New 0 cs] New_counted by (auto simp: counted_def digest_ok_def)

text \<open>
  Whatever the number of bytes written, a sequence of calls whose slices are each at most
  \<open>MaxInt - 31\<close> bytes long returns and leaves a digest at rest: \<open>0 \<le> n < 32\<close>.
\<close>

lemma run_at_rest:
  "int_bits w \<Longrightarrow> digest_ok d \<Longrightarrow>
     (\<forall>b. CallWrite b \<in> set cs \<longrightarrow> len b \<le> MaxInt w - 31) \<Longrightarrow>
     \<exists>d'. run w d cs = Some d' \<and> digest_ok d'"
proof (induction cs arbitrary: d)
  case Nil
  then show ?case by simp
next
  case (Cons c cs)
  have "\<exists>d1. call_digest w d c = Some d1 \<and> digest_ok d1"
  proof (cases c)
    case CallReset
    then show ?thesis
      using Cons.prems(2) by (simp add: digest_ok_def Digest_Reset_def)
  next
    case (CallWrite b)
    have "len b \<le> MaxInt w - 31"
      using Cons.prems(3) CallWrite by simp
    moreover have "n d < 32"
      using Cons.prems(2) by (simp add: digest_ok_def)
    ultimately have "n d + len b \<le> MaxInt w"
      by linarith
    from Write_abs [OF Cons.prems(1,2) this] show ?thesis
      using CallWrite by auto
  next
    case CallSum64
    then show ?thesis
      using Sum64_refines [OF Cons.prems(2)] Cons.prems(2) by simp
  qed
  then obtain d1 where c1: "call_digest w d c = Some d1" and ok1: "digest_ok d1"
    by blast
  have "\<forall>b. CallWrite b \<in> set cs \<longrightarrow> len b \<le> MaxInt w - 31"
    using Cons.prems(3) by simp
  from Cons.IH [OF Cons.prems(1) ok1 this] show ?case
    using c1 by simp
qed

text \<open>
  Two writes of the same slice, a whole number of blocks long, to a fresh digest: both
  return, the digest stays at rest with nothing pending, and the total is the sum of the
  two lengths in the arithmetic of \<open>int\<close>.
\<close>

lemma Write_twice:
  assumes ib: "int_bits w" and fit: "len b \<le> MaxInt w" and blocks: "length b mod 32 = 0"
  shows "\<exists>d1 d2. Digest_Write w New b = Some (d1, len b, nil)
           \<and> digest_ok d1 \<and> n d1 = 0 \<and> total d1 = int_add w 0 (len b)
           \<and> Digest_Write w d1 b = Some (d2, len b, nil)
           \<and> digest_ok d2 \<and> n d2 = 0
           \<and> total d2 = int_add w (int_add w 0 (len b)) (len b)"
proof -
  have okN: "digest_ok New" and nN: "n New = 0" and tN: "total New = 0" and pN: "pending New = []"
    using New_ok by simp_all
  have e: "rest b = []"
    using length_rest [of b] blocks by simp
  have "n New + len b \<le> MaxInt w"
    using fit nN by simp
  from Write_abs [OF ib okN this] obtain d1 where w1: "Digest_Write w New b = Some (d1, len b, nil)"
    and ok1: "digest_ok d1" and t1: "total d1 = int_add w 0 (len b)" and p1: "pending d1 = []"
    by (auto simp: tN pN e)
  have n1: "n d1 = 0"
    using n_pending [OF ok1] by (simp add: p1 len_def)
  have "n d1 + len b \<le> MaxInt w"
    using fit n1 by simp
  from Write_abs [OF ib ok1 this] obtain d2 where w2: "Digest_Write w d1 b = Some (d2, len b, nil)"
    and ok2: "digest_ok d2" and t2: "total d2 = int_add w (total d1) (len b)"
    and p2: "pending d2 = []"
    by (auto simp: p1 e)
  have n2: "n d2 = 0"
    using n_pending [OF ok2] by (simp add: p2 len_def)
  from w1 ok1 n1 t1 w2 ok2 n2 t2 show ?thesis
    by auto
qed

lemma two_gibibytes_32:
  "\<exists>d1 d2. Digest_Write 32 New (replicate (2 ^ 30) 0) = Some (d1, 2 ^ 30, nil)
       \<and> n d1 = 0 \<and> total d1 = 2 ^ 30
       \<and> Digest_Write 32 d1 (replicate (2 ^ 30) 0) = Some (d2, 2 ^ 30, nil)
       \<and> n d2 = 0 \<and> total d2 = - (2 ^ 31)"
  using Write_twice [of 32 "replicate (2 ^ 30) 0"]
  by (auto simp: int_bits_def MaxInt_def len_def int_add_def int_wrap_def)

section \<open>Streaming equals one-shot hashing\<close>

lemma Sum64_Ishmael:
  "Sum64 [67, 97, 108, 108, 32, 109, 101, 32, 73, 115, 104, 109, 97, 101, 108, 46, 32, 83, 111,
          109, 101, 32, 121, 101, 97, 114, 115, 32, 97, 103, 111, 45, 45, 110, 101, 118, 101,
          114, 32, 109, 105, 110, 100, 32, 104, 111, 119, 32, 108, 111, 110, 103, 32, 112, 114,
          101, 99, 105, 115, 101, 108, 121, 45]
     = 0x02A2E85470D6FD96"
  by code_simp

text \<open>
  C1: for every byte sequence \<open>B\<close> that fits a Go slice (its length is an \<open>int\<close>, of
  either width) and every list of chunks whose concatenation is \<open>B\<close> (no chunk, empty chunks
  and chunks of any size included), writing the chunks in order to a fresh digest and calling
  \<open>Sum64\<close> on it returns what the one-shot \<open>Sum64(B)\<close> returns.
\<close>

theorem streaming_is_one_shot:
  "int_bits w \<Longrightarrow> concat cs = B \<Longrightarrow> len B \<le> MaxInt w \<Longrightarrow>
     do { d \<leftarrow> write_all w New cs; (d', h) \<leftarrow> Digest_Sum64 d; Some h } = Some (Sum64 B)"
proof -
  assume ib: "int_bits w" and "concat cs = B" and "len B \<le> MaxInt w"
  then have "len (concat cs) \<le> MaxInt w"
    by simp
  from streaming_equals_one_shot [OF ib this] obtain d
    where "write_all w New cs = Some d" and "Digest_Sum64 d = Some (d, Sum64 (concat cs))"
    by blast
  then show ?thesis
    using \<open>concat cs = B\<close> by simp
qed

theorem streaming_is_one_shot_witness:
  "concat [[67, 97, 108, 108, 32, 109, 101, 32, 73, 115, 104, 109, 97, 101, 108, 46, 32, 83, 111,
            109, 101, 32, 121, 101, 97, 114, 115, 32, 97, 103, 111],
           [],
           [45, 45, 110, 101, 118, 101, 114, 32, 109, 105, 110, 100, 32, 104, 111, 119, 32, 108,
            111, 110, 103, 32, 112, 114, 101, 99, 105, 115, 101, 108, 121, 45]]
     = [67, 97, 108, 108, 32, 109, 101, 32, 73, 115, 104, 109, 97, 101, 108, 46, 32, 83, 111,
        109, 101, 32, 121, 101, 97, 114, 115, 32, 97, 103, 111, 45, 45, 110, 101, 118, 101,
        114, 32, 109, 105, 110, 100, 32, 104, 111, 119, 32, 108, 111, 110, 103, 32, 112, 114,
        101, 99, 105, 115, 101, 108, 121, 45 :: byte]
   \<and> int_bits 64 \<and> int_bits 32
   \<and> len [67, 97, 108, 108, 32, 109, 101, 32, 73, 115, 104, 109, 97, 101, 108, 46, 32, 83, 111,
          109, 101, 32, 121, 101, 97, 114, 115, 32, 97, 103, 111, 45, 45, 110, 101, 118, 101,
          114, 32, 109, 105, 110, 100, 32, 104, 111, 119, 32, 108, 111, 110, 103, 32, 112, 114,
          101, 99, 105, 115, 101, 108, 121, 45 :: byte] \<le> MaxInt 32
   \<and> do { d \<leftarrow> write_all 64 New
               [[67, 97, 108, 108, 32, 109, 101, 32, 73, 115, 104, 109, 97, 101, 108, 46, 32, 83,
                 111, 109, 101, 32, 121, 101, 97, 114, 115, 32, 97, 103, 111],
                [],
                [45, 45, 110, 101, 118, 101, 114, 32, 109, 105, 110, 100, 32, 104, 111, 119, 32,
                 108, 111, 110, 103, 32, 112, 114, 101, 99, 105, 115, 101, 108, 121, 45]];
          (d', h) \<leftarrow> Digest_Sum64 d;
          Some h }
       = Some 0x02A2E85470D6FD96
   \<and> do { d \<leftarrow> write_all 32 New
               [[67, 97, 108, 108, 32, 109, 101, 32, 73, 115, 104, 109, 97, 101, 108, 46, 32, 83,
                 111, 109, 101, 32, 121, 101, 97, 114, 115, 32, 97, 103, 111],
                [],
                [45, 45, 110, 101, 118, 101, 114, 32, 109, 105, 110, 100, 32, 104, 111, 119, 32,
                 108, 111, 110, 103, 32, 112, 114, 101, 99, 105, 115, 101, 108, 121, 45]];
          (d', h) \<leftarrow> Digest_Sum64 d;
          Some h }
       = Some 0x02A2E85470D6FD96"
proof -
  let ?cs = "[[67, 97, 108, 108, 32, 109, 101, 32, 73, 115, 104, 109, 97, 101, 108, 46, 32, 83, 111,
            109, 101, 32, 121, 101, 97, 114, 115, 32, 97, 103, 111],
           [],
           [45, 45, 110, 101, 118, 101, 114, 32, 109, 105, 110, 100, 32, 104, 111, 119, 32, 108,
            111, 110, 103, 32, 112, 114, 101, 99, 105, 115, 101, 108, 121, 45 :: byte]]"
  let ?B = "[67, 97, 108, 108, 32, 109, 101, 32, 73, 115, 104, 109, 97, 101, 108, 46, 32, 83, 111,
        109, 101, 32, 121, 101, 97, 114, 115, 32, 97, 103, 111, 45, 45, 110, 101, 118, 101,
        114, 32, 109, 105, 110, 100, 32, 104, 111, 119, 32, 108, 111, 110, 103, 32, 112, 114,
        101, 99, 105, 115, 101, 108, 121, 45 :: byte]"
  have c: "concat ?cs = ?B"
    by simp
  have b: "int_bits 64" "int_bits 32"
    by (simp_all add: int_bits_def)
  have l: "len ?B \<le> MaxInt 32" "len ?B \<le> MaxInt 64"
    by (simp_all add: len_def MaxInt_def)
  from streaming_is_one_shot [OF b(1) c l(2)] streaming_is_one_shot [OF b(2) c l(1)] b c l(1)
  show ?thesis
    by (simp only: Sum64_Ishmael)
qed

section \<open>Finalization\<close>

text \<open>
  C3: for every digest at rest (\<open>0 \<le> n < 32\<close>), \<open>Sum64\<close> folds the \<open>n\<close> pending bytes of the
  carry buffer left to right in the three tiers (a), (b), (c) of the finalization, starting
  from the value \<open>h\<close> has when the loops begin, applies the avalanche and returns the result,
  all modulo \<open>2^64\<close>.
\<close>

theorem Sum64_three_tiers:
  "digest_ok d \<Longrightarrow>
     Digest_Sum64 d =
       Some (d, spec_avalanche (spec_fold_tail (Sum64_start d) (take (nat (n d)) (mem d))))"
  using Sum64_refines [of d] by (simp add: pending_def)

theorem Sum64_three_tiers_witness:
  "digest_ok \<lparr>v1 = prime1 + prime2, v2 = prime2, v3 = 0, v4 = - prime1, total = 15,
       mem = [67, 97, 108, 108, 32, 109, 101, 32, 73, 115, 104, 109, 97, 101, 108,
              0, 0, 0, 0, 0, 0, 0, 0, 0, 0, 0, 0, 0, 0, 0, 0, 0], n = 15\<rparr>
   \<and> Digest_Sum64 \<lparr>v1 = prime1 + prime2, v2 = prime2, v3 = 0, v4 = - prime1, total = 15,
       mem = [67, 97, 108, 108, 32, 109, 101, 32, 73, 115, 104, 109, 97, 101, 108,
              0, 0, 0, 0, 0, 0, 0, 0, 0, 0, 0, 0, 0, 0, 0, 0, 0], n = 15\<rparr>
     = Some (\<lparr>v1 = prime1 + prime2, v2 = prime2, v3 = 0, v4 = - prime1, total = 15,
       mem = [67, 97, 108, 108, 32, 109, 101, 32, 73, 115, 104, 109, 97, 101, 108,
              0, 0, 0, 0, 0, 0, 0, 0, 0, 0, 0, 0, 0, 0, 0, 0, 0], n = 15\<rparr>,
       0x1654D079ACB28108)"
proof -
  let ?d = "\<lparr>v1 = prime1 + prime2, v2 = prime2, v3 = 0, v4 = - prime1, total = 15,
       mem = [67, 97, 108, 108, 32, 109, 101, 32, 73, 115, 104, 109, 97, 101, 108,
              0, 0, 0, 0, 0, 0, 0, 0, 0, 0, 0, 0, 0, 0, 0, 0, 0 :: byte], n = 15\<rparr>"
  have ok: "digest_ok ?d"
    by (simp add: digest_ok_def)
  have "spec_avalanche (spec_fold_tail (Sum64_start ?d) (take (nat (n ?d)) (mem ?d)))
          = 0x1654D079ACB28108"
    by code_simp
  with Sum64_three_tiers [OF ok] ok show ?thesis
    by simp
qed

text \<open>
  C8: \<open>Sum64\<close> is non-destructive.  Whenever it returns, the digest it leaves is the digest
  it was called on, field by field; so a second \<open>Sum64\<close> returns the same value and a
  \<open>Write\<close> after it behaves as if \<open>Sum64\<close> had not been called.  On a digest at rest it
  does return.
\<close>

theorem Sum64_non_destructive:
  "(Digest_Sum64 d = Some (d', h) \<longrightarrow>
      d' = d
      \<and> v1 d' = v1 d \<and> v2 d' = v2 d \<and> v3 d' = v3 d \<and> v4 d' = v4 d
      \<and> total d' = total d \<and> mem d' = mem d \<and> n d' = n d
      \<and> Digest_Sum64 d' = Some (d', h)
      \<and> Digest_Write w d' b = Digest_Write w d b)
   \<and> (digest_ok d \<longrightarrow> (\<exists>x. Digest_Sum64 d = Some (d, x)))"
proof -
  have "d' = d" if "Digest_Sum64 d = Some (d', h)"
    using that by (rule Sum64_state)
  moreover have "\<exists>x. Digest_Sum64 d = Some (d, x)" if "digest_ok d"
    using Sum64_refines [OF that] by blast
  ultimately show ?thesis
    by auto
qed

theorem Sum64_non_destructive_witness:
  "digest_ok New
   \<and> Digest_Sum64 New = Some (New, 0xEF46DB3751D8E999)
   \<and> (\<exists>x. Digest_Sum64 New = Some (New, x))
   \<and> Digest_Sum64 New \<bind> (\<lambda>(d', h). Digest_Write 64 d' [1, 2, 3]) = Digest_Write 64 New [1, 2, 3]
   \<and> Digest_Sum64 New \<bind> (\<lambda>(d', h). Digest_Write 32 d' [1, 2, 3]) = Digest_Write 32 New [1, 2, 3]
   \<and> Digest_Sum64 New \<bind> (\<lambda>(d', h). Digest_Sum64 d') = Some (New, 0xEF46DB3751D8E999)"
proof -
  have s: "Digest_Sum64 New = Some (New, 0xEF46DB3751D8E999)"
    by (simp add: New_def Digest_Sum64_def Sum64_start_def Sum64_lanes_def Digest_Reset_def
        zero_Digest_def prime1v_def prime1_def prime2_def prime3_def prime5_def
        uint64_of_int_def Sum64_loop8.simps Sum64_loop1.simps)
  from Sum64_non_destructive [of New New "0xEF46DB3751D8E999" 64 "[1, 2, 3]"]
    Sum64_non_destructive [of New New "0xEF46DB3751D8E999" 32 "[1, 2, 3]"] s New_ok
  show ?thesis
    by simp
qed

section \<open>No panic at rest\<close>

text \<open>
  C10: on a digest at rest (\<open>0 \<le> n < 32\<close>) every slice and index operation of \<open>Write\<close> and
  \<open>Sum64\<close> is in bounds, for an input of any length and either width of \<open>int\<close>:
  \<open>mem[d.n:]\<close>, \<open>b[32-d.n:]\<close> on the path that takes it, \<open>mem[i:i+8]\<close>, \<open>mem[i:i+4]\<close> and
  \<open>mem[i]\<close> for the indices the loops reach.  So neither operation panics.
\<close>

theorem no_panic_at_rest:
  "int_bits w \<Longrightarrow> digest_ok d \<Longrightarrow>
     slice_from (mem d) (n d) \<noteq> None
     \<and> (0 < n d \<and> \<not> int_add w (n d) (len b) < 32 \<longrightarrow>
          slice_from b (int_sub w 32 (n d)) \<noteq> None)
     \<and> (\<forall>i. 0 \<le> i \<and> i + 8 \<le> n d \<longrightarrow> subslice (mem d) i (i + 8) \<noteq> None)
     \<and> (\<forall>i. 0 \<le> i \<and> i + 4 \<le> n d \<longrightarrow> subslice (mem d) i (i + 4) \<noteq> None)
     \<and> (\<forall>i. 0 \<le> i \<and> i < n d \<longrightarrow> index (mem d) i \<noteq> None)
     \<and> Digest_Write w d b \<noteq> None
     \<and> Digest_Sum64 d \<noteq> None"
proof -
  assume ib: "int_bits w" and ok: "digest_ok d"
  then have lm: "len (mem d) = 32" and n0: "0 \<le> n d" and n32: "n d < 32"
    by (simp_all add: digest_ok_def len_def)
  have "slice_from (mem d) (n d) \<noteq> None"
    using lm n0 n32 by (simp add: slice_from_Some)
  moreover have "slice_from b (int_sub w 32 (n d)) \<noteq> None"
    if "0 < n d" and "\<not> int_add w (n d) (len b) < 32"
  proof -
    have "32 \<le> n d + len b"
      using not_small_big [OF ib, of "n d" "len b"] that(2) n0 by simp
    moreover have "int_sub w 32 (n d) = 32 - n d"
      using n0 n32 int_bits_range [OF ib] by (intro int_sub_id) auto
    ultimately show ?thesis
      using n32 by (simp add: slice_from_Some)
  qed
  moreover have "subslice (mem d) i (i + 8) \<noteq> None" if "0 \<le> i \<and> i + 8 \<le> n d" for i
    using that lm n32 by (simp add: subslice_Some)
  moreover have "subslice (mem d) i (i + 4) \<noteq> None" if "0 \<le> i \<and> i + 4 \<le> n d" for i
    using that lm n32 by (simp add: subslice_Some)
  moreover have "index (mem d) i \<noteq> None" if "0 \<le> i \<and> i < n d" for i
    using that lm n32 by (simp add: index_def)
  moreover have "Digest_Write w d b \<noteq> None"
    using Write_returns [OF ib ok, of b] by auto
  moreover have "Digest_Sum64 d \<noteq> None"
    using Sum64_refines [OF ok] by simp
  ultimately show ?thesis
    by blast
qed

theorem no_panic_at_rest_witness:
  "int_bits 64 \<and> int_bits 32
   \<and> digest_ok \<lparr>v1 = prime1 + prime2, v2 = prime2, v3 = 0, v4 = - prime1, total = 15,
       mem = [67, 97, 108, 108, 32, 109, 101, 32, 73, 115, 104, 109, 97, 101, 108,
              0, 0, 0, 0, 0, 0, 0, 0, 0, 0, 0, 0, 0, 0, 0, 0, 0], n = 15\<rparr>
   \<and> Digest_Write 64 \<lparr>v1 = prime1 + prime2, v2 = prime2, v3 = 0, v4 = - prime1, total = 15,
       mem = [67, 97, 108, 108, 32, 109, 101, 32, 73, 115, 104, 109, 97, 101, 108,
              0, 0, 0, 0, 0, 0, 0, 0, 0, 0, 0, 0, 0, 0, 0, 0, 0], n = 15\<rparr>
       (replicate 100 7) \<noteq> None
   \<and> Digest_Write 32 \<lparr>v1 = prime1 + prime2, v2 = prime2, v3 = 0, v4 = - prime1, total = 15,
       mem = [67, 97, 108, 108, 32, 109, 101, 32, 73, 115, 104, 109, 97, 101, 108,
              0, 0, 0, 0, 0, 0, 0, 0, 0, 0, 0, 0, 0, 0, 0, 0, 0], n = 15\<rparr>
       (replicate 100 7) \<noteq> None
   \<and> Digest_Sum64 \<lparr>v1 = prime1 + prime2, v2 = prime2, v3 = 0, v4 = - prime1, total = 15,
       mem = [67, 97, 108, 108, 32, 109, 101, 32, 73, 115, 104, 109, 97, 101, 108,
              0, 0, 0, 0, 0, 0, 0, 0, 0, 0, 0, 0, 0, 0, 0, 0, 0], n = 15\<rparr> \<noteq> None
   \<and> slice_from (replicate 100 (7 :: byte)) (int_sub 64 32 15) \<noteq> None
   \<and> slice_from (replicate 100 (7 :: byte)) (int_sub 32 32 15) \<noteq> None"
proof -
  let ?d = "\<lparr>v1 = prime1 + prime2, v2 = prime2, v3 = 0, v4 = - prime1, total = 15,
       mem = [67, 97, 108, 108, 32, 109, 101, 32, 73, 115, 104, 109, 97, 101, 108,
              0, 0, 0, 0, 0, 0, 0, 0, 0, 0, 0, 0, 0, 0, 0, 0, 0 :: byte], n = 15\<rparr>"
  have b: "int_bits 64" "int_bits 32"
    by (simp_all add: int_bits_def)
  have ok: "digest_ok ?d"
    by (simp add: digest_ok_def)
  have "\<not> int_add 64 15 100 < 32" "\<not> int_add 32 15 100 < 32"
    by (simp_all add: int_add_def int_wrap_def)
  with no_panic_at_rest [OF b(1) ok, of "replicate 100 7"]
    no_panic_at_rest [OF b(2) ok, of "replicate 100 7"] b ok
  show ?thesis
    by (simp add: len_def)
qed

section \<open>The running total\<close>

text \<open>
  What \<open>Write\<close> does on every digest at rest, for either width of \<open>int\<close>: it returns
  \<open>(len(b), nil)\<close>, the total becomes the sum in the arithmetic of \<open>int\<close>, which is the sum
  itself whenever that fits, and a write of no bytes leaves the lanes and the carry buffer
  as they were.
\<close>

lemma Write_accepts_all:
  assumes ib: "int_bits w" and ok: "digest_ok d"
  shows "\<exists>d'. Digest_Write w d b = Some (d', len b, nil)
       \<and> total d' = int_add w (total d) (len b)
       \<and> (MinInt w \<le> total d \<and> total d + len b \<le> MaxInt w \<longrightarrow> total d' = total d + len b)
       \<and> (b = [] \<longrightarrow> v1 d' = v1 d \<and> v2 d' = v2 d \<and> v3 d' = v3 d \<and> v4 d' = v4 d
                       \<and> mem d' = mem d \<and> n d' = n d)"
proof -
  from Write_returns [OF ib ok] obtain d' where w: "Digest_Write w d b = Some (d', len b, nil)"
    and t: "total d' = int_add w (total d) (len b)"
    by blast
  have "total d' = total d + len b" if "MinInt w \<le> total d" and "total d + len b \<le> MaxInt w"
  proof -
    have "MinInt w \<le> total d + len b"
      using that(1) len_nonneg [of b] by linarith
    then show ?thesis
      unfolding t using that(2) by (rule int_add_id)
  qed
  moreover have "v1 d' = v1 d \<and> v2 d' = v2 d \<and> v3 d' = v3 d \<and> v4 d' = v4 d
                   \<and> mem d' = mem d \<and> n d' = n d" if "b = []"
    using w Write_nothing [OF ib ok] that by auto
  ultimately show ?thesis
    using w t by blast
qed

text \<open>
  C4: \<open>Write(b)\<close> returns \<open>(len(b), nil)\<close> and increases the total byte count by \<open>len(b)\<close>.
  The code does the first and, where \<open>int\<close> is 32 bits wide, not the second: a write of
  \<open>2^30\<close> bytes to a fresh digest leaves the total at \<open>2^30\<close>, and a second write of \<open>2^30\<close>
  bytes returns \<open>(2^30, nil)\<close> and leaves the total at \<open>-2^31\<close>.
\<close>

theorem Write_total_wraps:
  "Digest_Write 32 New (replicate (2 ^ 30) 0) \<bind>
     (\<lambda>(d1, r1, e1). Digest_Write 32 d1 (replicate (2 ^ 30) 0) \<bind>
        (\<lambda>(d2, r2, e2). Some (r1, e1, total d1, r2, e2, total d2)))
   = Some (2 ^ 30, nil, 2 ^ 30, 2 ^ 30, nil, - (2 ^ 31))"
  using two_gibibytes_32 by auto

text \<open>
  C5: at rest between calls \<open>0 \<le> n < 32\<close>, and \<open>total\<close> is the number of bytes passed to
  \<open>Write\<close> since the last \<open>Reset\<close> or the construction.  The code keeps the first and, where
  \<open>int\<close> is 32 bits wide, not the second: after two writes of \<open>2^30\<close> bytes to a fresh
  digest \<open>n\<close> is 0, \<open>2^31\<close> bytes have been written, and \<open>total\<close> is \<open>-2^31\<close>.
\<close>

theorem total_is_not_the_count:
  "run 32 New [CallWrite (replicate (2 ^ 30) 0), CallWrite (replicate (2 ^ 30) 0)]
       \<bind> (\<lambda>d. Some (n d, total d)) = Some (0, - (2 ^ 31))
   \<and> written 0 [CallWrite (replicate (2 ^ 30) 0), CallWrite (replicate (2 ^ 30) 0)] = 2 ^ 31"
  using two_gibibytes_32 by auto

text \<open>
  C9: the running total represents any number of bytes up to \<open>2^64 - 1\<close>, and the value
  added to \<open>h\<close> in the finalization is that number.  Where \<open>int\<close> is 32 bits wide the code
  does neither: after two writes of \<open>2^30\<close> bytes to a fresh digest the total is negative,
  \<open>Sum64\<close> starts from \<open>v3 + prime5\<close>, the branch for fewer than 32 bytes, and the value it
  adds to \<open>h\<close> is \<open>2^64 - 2^31\<close>, not \<open>2^31\<close>.
\<close>

theorem total_is_signed:
  "run 32 New [CallWrite (replicate (2 ^ 30) 0), CallWrite (replicate (2 ^ 30) 0)]
     \<bind> (\<lambda>d. Some (total d < 0, Sum64_lanes d = v3 d + prime5,
                      Sum64_start d - Sum64_lanes d))
   = Some (True, True, 0xFFFFFFFF80000000)"
  using two_gibibytes_32
  by (auto simp: Sum64_lanes_def Sum64_start_def uint64_of_int_def)

end
